theory Spec2Isabelle
  imports Main "HOL-Library.Word"
begin

unbundle bit_operations_syntax

section \<open>Machine types\<close>

text \<open>
  The C types of \<^verbatim>\<open>yuv2rgb.cc\<close>: \<^verbatim>\<open>uint8_t\<close>, \<^verbatim>\<open>uint32_t\<close> and the 32-bit
  two's-complement \<^verbatim>\<open>int\<close>. An \<^verbatim>\<open>int\<close> is a 32-bit word read through \<open>sint\<close>: its
  comparisons are the signed ones (\<open><s\<close>), its right shift is the arithmetic one
  (\<open>signed_drop_bit\<close>), and \<open>+\<close>, \<open>-\<close>, \<open>*\<close> wrap around. Signed overflow is undefined
  behaviour in C; wrapping is what the two's-complement targets compute, and the
  theorems below say where no overflow occurs.
\<close>

type_synonym uint8_t = "8 word"
type_synonym uint32_t = "32 word"
type_synonym c_int = "32 word"

section \<open>The colour math of \<^verbatim>\<open>yuv2rgb.cc\<close>\<close>

text \<open>
  \<^verbatim>\<open>#define MAX(a, b) ({... _a > _b ? _a : _b; })\<close> and
  \<^verbatim>\<open>#define MIN(a, b) ({... _a < _b ? _a : _b; })\<close>, used at type \<^verbatim>\<open>int\<close>
  (\<open>MAX\<close> and \<open>MIN\<close> are binders of HOL, hence the suffix).
\<close>

definition MAX_i :: "c_int \<Rightarrow> c_int \<Rightarrow> c_int" where
  "MAX_i a b = (if b <s a then a else b)"

definition MIN_i :: "c_int \<Rightarrow> c_int \<Rightarrow> c_int" where
  "MIN_i a b = (if a <s b then a else b)"

text \<open>\<^verbatim>\<open>static const int kMaxChannelValue = 262143;\<close>\<close>

definition kMaxChannelValue :: c_int where
  "kMaxChannelValue = 262143"

text \<open>
  \<^verbatim>\<open>static inline uint32_t YUV2RGB(int nY, int nU, int nV)\<close>, statement by statement.
  The numbered names are the successive values of the variables the source reassigns.
\<close>

definition YUV2RGB :: "c_int \<Rightarrow> c_int \<Rightarrow> c_int \<Rightarrow> uint32_t" where
  "YUV2RGB nY nU nV =
     (let nY1 = nY - 16;
          nU1 = nU - 128;
          nV1 = nV - 128;
          nY2 = (if nY1 <s 0 then 0 else nY1);
          nR = 1192 * nY2 + 1634 * nV1;
          nG = 1192 * nY2 - 833 * nV1 - 400 * nU1;
          nB = 1192 * nY2 + 2066 * nU1;
          nR1 = MIN_i kMaxChannelValue (MAX_i 0 nR);
          nG1 = MIN_i kMaxChannelValue (MAX_i 0 nG);
          nB1 = MIN_i kMaxChannelValue (MAX_i 0 nB);
          nR2 = signed_drop_bit 10 nR1 AND 0xff;
          nG2 = signed_drop_bit 10 nG1 AND 0xff;
          nB2 = signed_drop_bit 10 nB1 AND 0xff
      in 0xff000000 OR push_bit 16 nR2 OR push_bit 8 nG2 OR nB2)"

section \<open>Memory\<close>

text \<open>
  The routine has no error return: a read or a write outside the buffer it was handed is
  undefined behaviour of the C program. The model makes it a value. Buffers are lists,
  pointers are offsets from the start of their buffer, and an access off the list is
  the fault \<open>OutOfBounds\<close>. An index of type \<^verbatim>\<open>int\<close> is read as signed, so a negative
  index is a fault as well.
\<close>

datatype fault = OutOfBounds

definition load :: "'a list \<Rightarrow> int \<Rightarrow> fault + 'a" where
  "load p i = (if 0 \<le> i \<and> i < int (length p) then Inr (p ! nat i) else Inl OutOfBounds)"

text \<open>
  The running pointers of \<^verbatim>\<open>ConvertYUV420SPToARGB8888\<close> and the memory it writes:
  \<open>pY\<close> is \<^verbatim>\<open>pY - yData\<close>, \<open>out\<close> is \<^verbatim>\<open>out - output\<close>, \<open>outbuf\<close> is the contents
  of the buffer \<^verbatim>\<open>output\<close> points to.
\<close>

record conv_state =
  pY :: nat
  out :: nat
  outbuf :: "uint32_t list"

section \<open>The frame conversion of \<^verbatim>\<open>yuv2rgb.cc\<close>\<close>

text \<open>
  \<^verbatim>\<open>#ifdef __APPLE__\<close> selects, at build time, which byte of a chroma pair is U. The
  library is built for Android (its binding includes \<^verbatim>\<open>android/log.h\<close>), where the
  macro is not defined. The general theorems below do not unfold this constant, so they
  hold for either build.
\<close>

definition APPLE :: bool where
  "APPLE = False"

text \<open>\<^verbatim>\<open>int offset = (y >> 1) * width + 2 * (x >> 1);\<close>\<close>

definition offset_of :: "c_int \<Rightarrow> c_int \<Rightarrow> c_int \<Rightarrow> c_int" where
  "offset_of width y x = signed_drop_bit 1 y * width + 2 * signed_drop_bit 1 x"

text \<open>
  What one iteration computes from the three bytes it has read: \<open>bY\<close> is \<^verbatim>\<open>*pY\<close>,
  \<open>b0\<close> is \<^verbatim>\<open>pUV[offset]\<close> and \<open>b1\<close> is \<^verbatim>\<open>pUV[offset + 1]\<close>. The assignments to
  \<^verbatim>\<open>int\<close> variables zero-extend the bytes; \<^verbatim>\<open>uv_flipped\<close> swaps the last two
  arguments of \<^verbatim>\<open>YUV2RGB\<close>.
\<close>

definition pixel_of :: "bool \<Rightarrow> uint8_t \<Rightarrow> uint8_t \<Rightarrow> uint8_t \<Rightarrow> uint32_t" where
  "pixel_of uv_flipped bY b0 b1 =
     (let nY = ucast bY :: c_int;
          nU = ucast (if APPLE then b0 else b1) :: c_int;
          nV = ucast (if APPLE then b1 else b0) :: c_int
      in if uv_flipped then YUV2RGB nY nV nU else YUV2RGB nY nU nV)"

text \<open>
  The body of the inner loop: read \<^verbatim>\<open>*pY++\<close>, read the chroma pair, write
  \<^verbatim>\<open>*out++\<close>.
\<close>

definition pixel_body ::
  "uint8_t list \<Rightarrow> uint8_t list \<Rightarrow> c_int \<Rightarrow> bool \<Rightarrow> c_int \<Rightarrow> c_int \<Rightarrow> conv_state
   \<Rightarrow> fault + conv_state" where
  "pixel_body yData uvData width uv_flipped y x s =
     (case load yData (int (pY s)) of
        Inl e \<Rightarrow> Inl e
      | Inr bY \<Rightarrow>
          let offset = offset_of width y x in
          (case load uvData (sint offset) of
             Inl e \<Rightarrow> Inl e
           | Inr b0 \<Rightarrow>
               (case load uvData (sint (offset + 1)) of
                  Inl e \<Rightarrow> Inl e
                | Inr b1 \<Rightarrow>
                    if out s < length (outbuf s)
                    then Inr (s\<lparr>pY := pY s + 1, out := out s + 1,
                             outbuf := (outbuf s)[out s := pixel_of uv_flipped bY b0 b1]\<rparr>)
                    else Inl OutOfBounds)))"

text \<open>\<^verbatim>\<open>for (int x = 0; x < width; x++)\<close>, entered at \<open>x\<close>.\<close>

function row_loop ::
  "uint8_t list \<Rightarrow> uint8_t list \<Rightarrow> c_int \<Rightarrow> bool \<Rightarrow> c_int \<Rightarrow> c_int \<Rightarrow> conv_state
   \<Rightarrow> fault + conv_state" where
  "row_loop yData uvData width uv_flipped y x s =
     (if x <s width
      then (case pixel_body yData uvData width uv_flipped y x s of
              Inl e \<Rightarrow> Inl e
            | Inr s' \<Rightarrow> row_loop yData uvData width uv_flipped y (x + 1) s')
      else Inr s)"
  by pat_completeness auto

text \<open>\<^verbatim>\<open>for (int y = 0; y < height; y++)\<close>, entered at \<open>y\<close>.\<close>

function frame_loop ::
  "uint8_t list \<Rightarrow> uint8_t list \<Rightarrow> c_int \<Rightarrow> c_int \<Rightarrow> bool \<Rightarrow> c_int \<Rightarrow> conv_state
   \<Rightarrow> fault + conv_state" where
  "frame_loop yData uvData width height uv_flipped y s =
     (if y <s height
      then (case row_loop yData uvData width uv_flipped y 0 s of
              Inl e \<Rightarrow> Inl e
            | Inr s' \<Rightarrow> frame_loop yData uvData width height uv_flipped (y + 1) s')
      else Inr s)"
  by pat_completeness auto

text \<open>
  \<^verbatim>\<open>void ConvertYUV420SPToARGB8888(yData, uvData, output, width, height, uv_flipped)\<close>:
  the pointers start at their buffers, the loops start at \<open>0\<close>. The result is the final
  state: the memory written and the pointers after the last iteration.
\<close>

definition ConvertYUV420SPToARGB8888 ::
  "uint8_t list \<Rightarrow> uint8_t list \<Rightarrow> uint32_t list \<Rightarrow> c_int \<Rightarrow> c_int \<Rightarrow> bool
   \<Rightarrow> fault + conv_state" where
  "ConvertYUV420SPToARGB8888 yData uvData output_buffer width height uv_flipped =
     frame_loop yData uvData width height uv_flipped 0
       \<lparr>pY = 0, out = 0, outbuf = output_buffer\<rparr>"

section \<open>One iteration, as a predicate and a value\<close>

text \<open>
  \<open>reads_ok\<close>: the three reads of the iteration at \<open>(x, y)\<close>, with the luma pointer at
  \<open>p\<close>, are inside their buffers. \<open>pixel_at\<close>: the word that iteration stores.
\<close>

definition reads_ok :: "uint8_t list \<Rightarrow> uint8_t list \<Rightarrow> c_int \<Rightarrow> c_int \<Rightarrow> c_int \<Rightarrow> nat \<Rightarrow> bool" where
  "reads_ok yData uvData width y x p \<longleftrightarrow>
     p < length yData \<and>
     0 \<le> sint (offset_of width y x) \<and> sint (offset_of width y x) < int (length uvData) \<and>
     0 \<le> sint (offset_of width y x + 1) \<and> sint (offset_of width y x + 1) < int (length uvData)"

definition pixel_at :: "bool \<Rightarrow> uint8_t list \<Rightarrow> uint8_t list \<Rightarrow> c_int \<Rightarrow> c_int \<Rightarrow> c_int \<Rightarrow> nat \<Rightarrow> uint32_t" where
  "pixel_at uv_flipped yData uvData width y x p =
     pixel_of uv_flipped (yData ! p) (uvData ! nat (sint (offset_of width y x)))
       (uvData ! nat (sint (offset_of width y x + 1)))"

section \<open>The specification's words\<close>

text \<open>
  The colour recipe as the specification words it, on unbounded integers: subtract 16
  from luma and clamp at 0, subtract 128 from each chroma sample, apply the matrix, clamp
  each channel to \<open>[0, 262143]\<close>, shift right by 10 bits, mask to 8 bits, pack under an
  opaque alpha byte. It is compared with \<open>YUV2RGB\<close> below.
\<close>

definition clamp_channel :: "int \<Rightarrow> int" where
  "clamp_channel n = min 262143 (max 0 n)"

definition recipe_ARGB :: "int \<Rightarrow> int \<Rightarrow> int \<Rightarrow> int" where
  "recipe_ARGB Y U V =
     (let Y' = max (Y - 16) 0;
          U' = U - 128;
          V' = V - 128;
          R = 1192 * Y' + 1634 * V';
          G = 1192 * Y' - 833 * V' - 400 * U';
          B = 1192 * Y' + 2066 * U';
          R8 = drop_bit 10 (clamp_channel R) AND 0xff;
          G8 = drop_bit 10 (clamp_channel G) AND 0xff;
          B8 = drop_bit 10 (clamp_channel B) AND 0xff
      in 0xFF000000 OR push_bit 16 R8 OR push_bit 8 G8 OR B8)"

text \<open>
  Swapping the two sample values at each pair position of the interleaved chroma plane
  (positions \<open>2 i\<close> and \<open>2 i + 1\<close>); a trailing unpaired byte stays.
\<close>

fun swap_uv :: "uint8_t list \<Rightarrow> uint8_t list" where
  "swap_uv (a # b # rest) = b # a # swap_uv rest"
| "swap_uv rest = rest"

section \<open>The loops terminate\<close>

lemma sint_Suc_sless:
  fixes x w :: c_int
  assumes "x <s w"
  shows "sint (x + 1) = sint x + 1"
proof -
  have "sint w < 2147483648" using sint_lt [of w] by simp
  moreover have "- 2147483648 \<le> sint x" using sint_ge [of x] by simp
  ultimately have r: "- 2147483648 \<le> sint x + 1" "sint x + 1 < 2147483648"
    using assms by (simp_all add: word_sless_alt)
  have "sint (x + 1) = signed_take_bit 31 (sint x + 1)"
    by (simp add: sint_word_ariths)
  then show ?thesis
    using r by (simp add: signed_take_bit_int_eq_self)
qed

termination row_loop
  by (relation "measure (\<lambda>(yData, uvData, width, uv_flipped, y, x, s). nat (sint width - sint x))")
     (auto simp add: sint_Suc_sless word_sless_alt)

termination frame_loop
  by (relation "measure (\<lambda>(yData, uvData, width, height, uv_flipped, y, s). nat (sint height - sint y))")
     (auto simp add: sint_Suc_sless word_sless_alt)

declare row_loop.simps [simp del] frame_loop.simps [simp del]

section \<open>Signed 32-bit arithmetic without overflow\<close>

lemma sint_wi32:
  "- 2147483648 \<le> k \<Longrightarrow> k < 2147483648 \<Longrightarrow> sint (word_of_int k :: c_int) = k"
  by (simp add: sint_sbintrunc' signed_take_bit_int_eq_self)

lemma sless_wi32:
  "- 2147483648 \<le> a \<Longrightarrow> a < 2147483648 \<Longrightarrow> - 2147483648 \<le> b \<Longrightarrow> b < 2147483648 \<Longrightarrow>
   ((word_of_int a :: c_int) <s word_of_int b) = (a < b)"
  by (simp add: word_sless_alt sint_wi32)

lemma MAX_i_wi:
  "- 2147483648 \<le> b \<Longrightarrow> b < 2147483648 \<Longrightarrow> MAX_i 0 (word_of_int b) = word_of_int (max 0 b)"
  using sless_wi32 [of b 0] by (simp add: MAX_i_def max_def)

lemma MIN_i_wi:
  "- 2147483648 \<le> b \<Longrightarrow> b < 2147483648 \<Longrightarrow>
   MIN_i kMaxChannelValue (word_of_int b) = word_of_int (min 262143 b)"
  using sless_wi32 [of 262143 b] by (simp add: MIN_i_def kMaxChannelValue_def min_def)

lemma sdrop_wi:
  "- 2147483648 \<le> k \<Longrightarrow> k < 2147483648 \<Longrightarrow>
   signed_drop_bit n (word_of_int k :: c_int) = word_of_int (drop_bit n k)"
proof -
  assume a: "- 2147483648 \<le> k" "k < 2147483648"
  have "sint (signed_drop_bit n (word_of_int k :: c_int)) = drop_bit n k"
    by (simp add: sint_signed_drop_bit_eq sint_wi32 a)
  then have "word_of_int (sint (signed_drop_bit n (word_of_int k :: c_int))) = (word_of_int (drop_bit n k) :: c_int)"
    by simp
  then show ?thesis by simp
qed

section \<open>The colour math against the recipe\<close>

lemma recipe_ARGB_range: "take_bit 32 (recipe_ARGB Y U V) = recipe_ARGB Y U V"
proof -
  have m: "(0xff :: int) = mask 8" "(0xFF000000 :: int) = push_bit 24 (mask 8)"
    by (simp_all add: mask_eq_exp_minus_1)
  show ?thesis
    unfolding recipe_ARGB_def Let_def m
    by (rule bit_eqI) (auto simp add: bit_simps)
qed

lemma YUV2RGB_wi:
  assumes "0 \<le> Y" "Y \<le> 255" "0 \<le> U" "U \<le> 255" "0 \<le> V" "V \<le> 255"
  shows "YUV2RGB (word_of_int Y) (word_of_int U) (word_of_int V) = word_of_int (recipe_ARGB Y U V)"
proof -
  define Y' where "Y' = max (Y - 16) 0"
  define U' where "U' = U - 128"
  define V' where "V' = V - 128"
  define R where "R = 1192 * Y' + 1634 * V'"
  define G where "G = 1192 * Y' - 833 * V' - 400 * U'"
  define B where "B = 1192 * Y' + 2066 * U'"
  have bY: "0 \<le> Y'" "Y' \<le> 239" and bU: "- 128 \<le> U'" "U' \<le> 127" and bV: "- 128 \<le> V'" "V' \<le> 127"
    using assms by (simp_all add: Y'_def U'_def V'_def)
  have bR: "- 2147483648 \<le> R" "R < 2147483648"
    and bG: "- 2147483648 \<le> G" "G < 2147483648"
    and bB: "- 2147483648 \<le> B" "B < 2147483648"
    using bY bU bV by (simp_all add: R_def G_def B_def)
  have y1: "(if (word_of_int Y - 16 :: c_int) <s 0 then 0 else word_of_int Y - 16) = word_of_int Y'"
  proof -
    have "(word_of_int Y - 16 :: c_int) = word_of_int (Y - 16)" by simp
    moreover have "((word_of_int (Y - 16) :: c_int) <s word_of_int 0) = (Y - 16 < 0)"
      using assms by (intro sless_wi32) simp_all
    ultimately show ?thesis by (simp add: Y'_def max_def)
  qed
  have u1: "(word_of_int U - 128 :: c_int) = word_of_int U'"
    and v1: "(word_of_int V - 128 :: c_int) = word_of_int V'"
    by (simp_all add: U'_def V'_def)
  have r: "1192 * word_of_int Y' + 1634 * word_of_int V' = (word_of_int R :: c_int)"
    and g: "1192 * word_of_int Y' - 833 * word_of_int V' - 400 * word_of_int U' = (word_of_int G :: c_int)"
    and b: "1192 * word_of_int Y' + 2066 * word_of_int U' = (word_of_int B :: c_int)"
    by (simp_all add: R_def G_def B_def)
  have cl: "MIN_i kMaxChannelValue (MAX_i 0 (word_of_int n)) = word_of_int (clamp_channel n)"
    if "- 2147483648 \<le> n" "n < 2147483648" for n
    using that by (simp add: MAX_i_wi MIN_i_wi clamp_channel_def)
  have sh: "signed_drop_bit 10 (word_of_int (clamp_channel n) :: c_int) AND 0xff
            = word_of_int (drop_bit 10 (clamp_channel n) AND 0xff)" for n
  proof -
    have "signed_drop_bit 10 (word_of_int (clamp_channel n) :: c_int) = word_of_int (drop_bit 10 (clamp_channel n))"
      by (rule sdrop_wi) (simp_all add: clamp_channel_def)
    moreover have "(0xff :: c_int) = word_of_int 0xff" by simp
    ultimately show ?thesis by (simp only: word_wi_log_defs)
  qed
  have "YUV2RGB (word_of_int Y) (word_of_int U) (word_of_int V) =
        0xff000000 OR push_bit 16 (word_of_int (drop_bit 10 (clamp_channel R) AND 0xff))
          OR push_bit 8 (word_of_int (drop_bit 10 (clamp_channel G) AND 0xff))
          OR word_of_int (drop_bit 10 (clamp_channel B) AND 0xff)"
    unfolding YUV2RGB_def Let_def y1 u1 v1 r g b
    by (simp only: cl [OF bR] cl [OF bG] cl [OF bB] sh)
  also have "\<dots> = word_of_int (recipe_ARGB Y U V)"
  proof -
    have "(0xff000000 :: c_int) = word_of_int 0xFF000000" by simp
    then show ?thesis
      unfolding recipe_ARGB_def Let_def
      by (simp only: push_bit_of_int word_wi_log_defs Y'_def [symmetric] U'_def [symmetric]
          V'_def [symmetric] R_def [symmetric] G_def [symmetric] B_def [symmetric])
  qed
  finally show ?thesis .
qed

lemma YUV2RGB_bytes:
  fixes y u v :: uint8_t
  shows "uint (YUV2RGB (ucast y) (ucast u) (ucast v)) = recipe_ARGB (uint y) (uint u) (uint v)"
proof -
  have b: "uint w \<le> 255" for w :: uint8_t
    using uint_bounded [of w] by simp
  have "YUV2RGB (ucast y) (ucast u) (ucast v) = word_of_int (recipe_ARGB (uint y) (uint u) (uint v))"
    unfolding ucast_eq by (rule YUV2RGB_wi) (simp_all add: b)
  then show ?thesis
    by (simp add: uint_word_of_int_eq recipe_ARGB_range)
qed

section \<open>What the loops compute\<close>

lemma pixel_body_Inr_iff:
  "pixel_body yData uvData width uv_flipped y x s = Inr s' \<longleftrightarrow>
     reads_ok yData uvData width y x (pY s) \<and> out s < length (outbuf s) \<and>
     s' = s\<lparr>pY := pY s + 1, out := out s + 1,
            outbuf := (outbuf s)[out s := pixel_at uv_flipped yData uvData width y x (pY s)]\<rparr>"
  by (auto simp add: pixel_body_def load_def reads_ok_def pixel_at_def Let_def)

lemma sless_cases:
  fixes x x' w :: c_int
  assumes "x \<le>s x'" "x' <s w"
  shows "x' = x \<or> (x + 1 \<le>s x' \<and> nat (sint x' - sint x) = Suc (nat (sint x' - sint (x + 1))))"
proof (cases "x' = x")
  case True then show ?thesis by simp
next
  case False
  have "x <s w" using assms by (simp add: word_sle_eq word_sless_alt)
  then have s: "sint (x + 1) = sint x + 1" by (rule sint_Suc_sless)
  have "sint x \<noteq> sint x'"
  proof
    assume "sint x = sint x'"
    then have "x = x'" by (rule signed_word_eqI)
    with False show False by simp
  qed
  then have "sint x < sint x'" using assms(1) by (simp add: word_sle_eq)
  then show ?thesis using False s by (simp add: word_sle_eq)
qed

lemma row_loop_Inr:
  "row_loop yData uvData width uv_flipped y x s = Inr s' \<Longrightarrow>
   pY s' = pY s + nat (sint width - sint x) \<and>
   out s' = out s + nat (sint width - sint x) \<and>
   length (outbuf s') = length (outbuf s) \<and>
   (\<forall>i < out s. outbuf s' ! i = outbuf s ! i) \<and>
   (\<forall>x'. x \<le>s x' \<and> x' <s width \<longrightarrow>
      reads_ok yData uvData width y x' (pY s + nat (sint x' - sint x)) \<and>
      out s + nat (sint x' - sint x) < length (outbuf s) \<and>
      outbuf s' ! (out s + nat (sint x' - sint x))
        = pixel_at uv_flipped yData uvData width y x' (pY s + nat (sint x' - sint x)))"
proof (induction yData uvData width uv_flipped y x s rule: row_loop.induct)
  case (1 yData uvData width uv_flipped y x s)
  show ?case
  proof (cases "x <s width")
    case False
    with "1.prems" have "s' = s" by (simp add: row_loop.simps)
    with False show ?thesis by (auto simp add: word_sless_alt word_sle_eq)
  next
    case True
    from "1.prems" True obtain s1 where
      b: "pixel_body yData uvData width uv_flipped y x s = Inr s1" and
      r: "row_loop yData uvData width uv_flipped y (x + 1) s1 = Inr s'"
      by (auto simp add: row_loop.simps [of _ _ _ _ _ x] split: sum.splits)
    note ih = "1.IH" [OF True b r]
    from b have ok: "reads_ok yData uvData width y x (pY s)" and lt: "out s < length (outbuf s)"
      and s1: "s1 = s\<lparr>pY := pY s + 1, out := out s + 1,
            outbuf := (outbuf s)[out s := pixel_at uv_flipped yData uvData width y x (pY s)]\<rparr>"
      by (simp_all add: pixel_body_Inr_iff)
    have sx: "sint (x + 1) = sint x + 1" using True by (rule sint_Suc_sless)
    have n: "nat (sint width - sint x) = Suc (nat (sint width - sint (x + 1)))"
      using True sx by (simp add: word_sless_alt)
    have p1: "pY s1 = pY s + 1" and o1: "out s1 = out s + 1"
      and l1: "length (outbuf s1) = length (outbuf s)" by (simp_all add: s1)
    have A: "pY s' = pY s + nat (sint width - sint x)"
      and B: "out s' = out s + nat (sint width - sint x)"
      and C: "length (outbuf s') = length (outbuf s)"
      using ih p1 o1 l1 n by simp_all
    have D: "\<forall>i < out s. outbuf s' ! i = outbuf s ! i"
    proof (intro allI impI)
      fix i assume i: "i < out s"
      then have "outbuf s' ! i = outbuf s1 ! i" using ih o1 by simp
      also have "\<dots> = outbuf s ! i" using i by (simp add: s1)
      finally show "outbuf s' ! i = outbuf s ! i" .
    qed
    have E: "reads_ok yData uvData width y x' (pY s + nat (sint x' - sint x)) \<and>
      out s + nat (sint x' - sint x) < length (outbuf s) \<and>
      outbuf s' ! (out s + nat (sint x' - sint x))
        = pixel_at uv_flipped yData uvData width y x' (pY s + nat (sint x' - sint x))"
      if x': "x \<le>s x'" "x' <s width" for x'
    proof -
      from sless_cases [OF x'] show ?thesis
      proof
        assume e: "x' = x"
        have "outbuf s' ! out s = outbuf s1 ! out s" using ih o1 by simp
        also have "\<dots> = pixel_at uv_flipped yData uvData width y x (pY s)"
          using lt by (simp add: s1)
        finally show ?thesis using e ok lt by simp
      next
        assume "x + 1 \<le>s x' \<and> nat (sint x' - sint x) = Suc (nat (sint x' - sint (x + 1)))"
        then have le: "x + 1 \<le>s x'" and k: "nat (sint x' - sint x) = Suc (nat (sint x' - sint (x + 1)))"
          by simp_all
        from ih le x'(2) have
          "reads_ok yData uvData width y x' (pY s1 + nat (sint x' - sint (x + 1))) \<and>
           out s1 + nat (sint x' - sint (x + 1)) < length (outbuf s1) \<and>
           outbuf s' ! (out s1 + nat (sint x' - sint (x + 1)))
             = pixel_at uv_flipped yData uvData width y x' (pY s1 + nat (sint x' - sint (x + 1)))"
          by blast
        then show ?thesis by (simp add: p1 o1 l1 k)
      qed
    qed
    from A B C D E show ?thesis by blast
  qed
qed

lemma frame_loop_Inr:
  "frame_loop yData uvData width height uv_flipped y s = Inr s' \<Longrightarrow>
   pY s' = pY s + nat (sint height - sint y) * nat (sint width) \<and>
   out s' = out s + nat (sint height - sint y) * nat (sint width) \<and>
   length (outbuf s') = length (outbuf s) \<and>
   (\<forall>i < out s. outbuf s' ! i = outbuf s ! i) \<and>
   (\<forall>y' x'. y \<le>s y' \<and> y' <s height \<and> 0 \<le>s x' \<and> x' <s width \<longrightarrow>
      reads_ok yData uvData width y' x'
        (pY s + (nat (sint y' - sint y) * nat (sint width) + nat (sint x'))) \<and>
      out s + (nat (sint y' - sint y) * nat (sint width) + nat (sint x')) < length (outbuf s) \<and>
      outbuf s' ! (out s + (nat (sint y' - sint y) * nat (sint width) + nat (sint x')))
        = pixel_at uv_flipped yData uvData width y' x'
            (pY s + (nat (sint y' - sint y) * nat (sint width) + nat (sint x'))))"
proof (induction yData uvData width height uv_flipped y s rule: frame_loop.induct)
  case (1 yData uvData width height uv_flipped y s)
  define W where "W = nat (sint width)"
  show ?case
  proof (cases "y <s height")
    case False
    with "1.prems" have "s' = s" by (simp add: frame_loop.simps)
    with False show ?thesis by (auto simp add: word_sless_alt word_sle_eq)
  next
    case True
    from "1.prems" True obtain s1 where
      r: "row_loop yData uvData width uv_flipped y 0 s = Inr s1" and
      f: "frame_loop yData uvData width height uv_flipped (y + 1) s1 = Inr s'"
      by (auto simp add: frame_loop.simps [of _ _ _ _ _ y] split: sum.splits)
    note ih = "1.IH" [OF True r f, folded W_def]
    note row = row_loop_Inr [OF r, simplified, folded W_def]
    have sy: "sint (y + 1) = sint y + 1" using True by (rule sint_Suc_sless)
    have n: "nat (sint height - sint y) = Suc (nat (sint height - sint (y + 1)))"
      using True sy by (simp add: word_sless_alt)
    have p1: "pY s1 = pY s + W" and o1: "out s1 = out s + W"
      and l1: "length (outbuf s1) = length (outbuf s)"
      using row by simp_all
    have A: "pY s' = pY s + nat (sint height - sint y) * W"
      and B: "out s' = out s + nat (sint height - sint y) * W"
      and C: "length (outbuf s') = length (outbuf s)"
      using ih p1 o1 l1 n by simp_all
    have D: "\<forall>i < out s. outbuf s' ! i = outbuf s ! i"
    proof (intro allI impI)
      fix i assume i: "i < out s"
      then have "outbuf s' ! i = outbuf s1 ! i" using ih o1 by simp
      also have "\<dots> = outbuf s ! i" using i row by simp
      finally show "outbuf s' ! i = outbuf s ! i" .
    qed
    have E: "reads_ok yData uvData width y' x'
        (pY s + (nat (sint y' - sint y) * W + nat (sint x'))) \<and>
      out s + (nat (sint y' - sint y) * W + nat (sint x')) < length (outbuf s) \<and>
      outbuf s' ! (out s + (nat (sint y' - sint y) * W + nat (sint x')))
        = pixel_at uv_flipped yData uvData width y' x'
            (pY s + (nat (sint y' - sint y) * W + nat (sint x')))"
      if y': "y \<le>s y'" "y' <s height" and x': "0 \<le>s x'" "x' <s width" for y' x'
    proof -
      have xW: "nat (sint x') < W"
        using x' by (simp add: W_def word_sless_alt word_sle_eq)
      from sless_cases [OF y'] show ?thesis
      proof
        assume e: "y' = y"
        from row x' have
          r1: "reads_ok yData uvData width y x' (pY s + nat (sint x'))"
          and r2: "out s + nat (sint x') < length (outbuf s)"
          and r3: "outbuf s1 ! (out s + nat (sint x'))
                 = pixel_at uv_flipped yData uvData width y x' (pY s + nat (sint x'))"
          by simp_all
        have "outbuf s' ! (out s + nat (sint x')) = outbuf s1 ! (out s + nat (sint x'))"
          using ih o1 xW by simp
        with r1 r2 r3 e show ?thesis by simp
      next
        assume "y + 1 \<le>s y' \<and> nat (sint y' - sint y) = Suc (nat (sint y' - sint (y + 1)))"
        then have le: "y + 1 \<le>s y'" and k: "nat (sint y' - sint y) = Suc (nat (sint y' - sint (y + 1)))"
          by simp_all
        define k' where "k' = nat (sint y' - sint (y + 1)) * W + nat (sint x')"
        from ih le y'(2) x' have
          "reads_ok yData uvData width y' x' (pY s1 + k') \<and>
           out s1 + k' < length (outbuf s1) \<and>
           outbuf s' ! (out s1 + k') = pixel_at uv_flipped yData uvData width y' x' (pY s1 + k')"
          unfolding k'_def by blast
        moreover have "nat (sint y' - sint y) * W + nat (sint x') = W + k'"
          by (simp add: k k'_def)
        ultimately show ?thesis by (simp add: p1 o1 l1 add.assoc)
      qed
    qed
    from A B C D E show ?thesis unfolding W_def by blast
  qed
qed

lemma Convert_Inr:
  assumes "ConvertYUV420SPToARGB8888 yData uvData ob width height uv_flipped = Inr s'"
  shows "pY s' = nat (sint height) * nat (sint width)"
    and "out s' = nat (sint height) * nat (sint width)"
    and "length (outbuf s') = length ob"
    and "0 \<le>s y \<Longrightarrow> y <s height \<Longrightarrow> 0 \<le>s x \<Longrightarrow> x <s width \<Longrightarrow>
         reads_ok yData uvData width y x (nat (sint y) * nat (sint width) + nat (sint x))"
    and "0 \<le>s y \<Longrightarrow> y <s height \<Longrightarrow> 0 \<le>s x \<Longrightarrow> x <s width \<Longrightarrow>
         nat (sint y) * nat (sint width) + nat (sint x) < length ob"
    and "0 \<le>s y \<Longrightarrow> y <s height \<Longrightarrow> 0 \<le>s x \<Longrightarrow> x <s width \<Longrightarrow>
         outbuf s' ! (nat (sint y) * nat (sint width) + nat (sint x))
           = pixel_at uv_flipped yData uvData width y x (nat (sint y) * nat (sint width) + nat (sint x))"
  using frame_loop_Inr [OF assms [unfolded ConvertYUV420SPToARGB8888_def]]
  by simp_all

text \<open>Nothing is written at or beyond the final \<open>out\<close> pointer.\<close>

lemma row_loop_tail:
  "row_loop yData uvData width uv_flipped y x s = Inr s' \<Longrightarrow> out s' \<le> i \<Longrightarrow>
   outbuf s' ! i = outbuf s ! i"
proof (induction yData uvData width uv_flipped y x s rule: row_loop.induct)
  case (1 yData uvData width uv_flipped y x s)
  show ?case
  proof (cases "x <s width")
    case False
    with "1.prems" show ?thesis by (simp add: row_loop.simps)
  next
    case True
    from "1.prems" True obtain s1 where
      b: "pixel_body yData uvData width uv_flipped y x s = Inr s1" and
      r: "row_loop yData uvData width uv_flipped y (x + 1) s1 = Inr s'"
      by (auto simp add: row_loop.simps [of _ _ _ _ _ x] split: sum.splits)
    have "out s1 \<le> out s'" using row_loop_Inr [OF r] by simp
    moreover have "out s1 = out s + 1" using b by (simp add: pixel_body_Inr_iff)
    ultimately have "i \<noteq> out s" using "1.prems"(2) by simp
    then have "outbuf s1 ! i = outbuf s ! i" using b by (simp add: pixel_body_Inr_iff)
    with "1.IH" [OF True b r "1.prems"(2)] show ?thesis by simp
  qed
qed

lemma frame_loop_tail:
  "frame_loop yData uvData width height uv_flipped y s = Inr s' \<Longrightarrow> out s' \<le> i \<Longrightarrow>
   outbuf s' ! i = outbuf s ! i"
proof (induction yData uvData width height uv_flipped y s rule: frame_loop.induct)
  case (1 yData uvData width height uv_flipped y s)
  show ?case
  proof (cases "y <s height")
    case False
    with "1.prems" show ?thesis by (simp add: frame_loop.simps)
  next
    case True
    from "1.prems" True obtain s1 where
      r: "row_loop yData uvData width uv_flipped y 0 s = Inr s1" and
      f: "frame_loop yData uvData width height uv_flipped (y + 1) s1 = Inr s'"
      by (auto simp add: frame_loop.simps [of _ _ _ _ _ y] split: sum.splits)
    have "out s1 \<le> out s'" using frame_loop_Inr [OF f] by simp
    with "1.prems"(2) have "out s1 \<le> i" by simp
    with r have "outbuf s1 ! i = outbuf s ! i" by (rule row_loop_tail)
    with "1.IH" [OF True r f "1.prems"(2)] show ?thesis by simp
  qed
qed

lemma Convert_tail:
  assumes "ConvertYUV420SPToARGB8888 yData uvData ob width height uv_flipped = Inr s'"
    and "out s' \<le> i"
  shows "outbuf s' ! i = ob ! i"
  using frame_loop_tail [OF assms(1) [unfolded ConvertYUV420SPToARGB8888_def] assms(2)]
  by simp

section \<open>When the loops succeed\<close>

lemma row_loop_succeeds:
  "(\<And>x'. x \<le>s x' \<Longrightarrow> x' <s width \<Longrightarrow>
      reads_ok yData uvData width y x' (pY s + nat (sint x' - sint x)) \<and>
      out s + nat (sint x' - sint x) < length (outbuf s)) \<Longrightarrow>
   \<exists>s'. row_loop yData uvData width uv_flipped y x s = Inr s'"
proof (induction yData uvData width uv_flipped y x s rule: row_loop.induct)
  case (1 yData uvData width uv_flipped y x s)
  show ?case
  proof (cases "x <s width")
    case False
    then show ?thesis by (simp add: row_loop.simps)
  next
    case True
    have "reads_ok yData uvData width y x (pY s) \<and> out s < length (outbuf s)"
      using "1.prems" [of x] True by simp
    then obtain s1 where b: "pixel_body yData uvData width uv_flipped y x s = Inr s1"
      by (simp add: pixel_body_Inr_iff)
    then have p1: "pY s1 = pY s + 1" and o1: "out s1 = out s + 1"
      and l1: "length (outbuf s1) = length (outbuf s)"
      by (simp_all add: pixel_body_Inr_iff)
    have sx: "sint (x + 1) = sint x + 1" using True by (rule sint_Suc_sless)
    have "\<exists>s'. row_loop yData uvData width uv_flipped y (x + 1) s1 = Inr s'"
    proof (rule "1.IH" [OF True b])
      fix x' assume x': "x + 1 \<le>s x'" "x' <s width"
      then have "x \<le>s x'" using sx by (simp add: word_sle_eq)
      moreover have "nat (sint x' - sint x) = Suc (nat (sint x' - sint (x + 1)))"
        using x' sx by (simp add: word_sle_eq)
      ultimately show "reads_ok yData uvData width y x' (pY s1 + nat (sint x' - sint (x + 1))) \<and>
          out s1 + nat (sint x' - sint (x + 1)) < length (outbuf s1)"
        using "1.prems" [of x'] x'(2) by (simp add: p1 o1 l1)
    qed
    with b True show ?thesis by (simp add: row_loop.simps [of _ _ _ _ _ x])
  qed
qed

lemma frame_loop_succeeds:
  "(\<And>y' x'. y \<le>s y' \<Longrightarrow> y' <s height \<Longrightarrow> 0 \<le>s x' \<Longrightarrow> x' <s width \<Longrightarrow>
      reads_ok yData uvData width y' x'
        (pY s + (nat (sint y' - sint y) * nat (sint width) + nat (sint x'))) \<and>
      out s + (nat (sint y' - sint y) * nat (sint width) + nat (sint x')) < length (outbuf s)) \<Longrightarrow>
   \<exists>s'. frame_loop yData uvData width height uv_flipped y s = Inr s'"
proof (induction yData uvData width height uv_flipped y s rule: frame_loop.induct)
  case (1 yData uvData width height uv_flipped y s)
  define W where "W = nat (sint width)"
  show ?case
  proof (cases "y <s height")
    case False
    then show ?thesis by (simp add: frame_loop.simps)
  next
    case True
    have "\<exists>s1. row_loop yData uvData width uv_flipped y 0 s = Inr s1"
    proof (rule row_loop_succeeds)
      fix x' :: c_int assume "0 \<le>s x'" "x' <s width"
      then show "reads_ok yData uvData width y x' (pY s + nat (sint x' - sint (0 :: c_int))) \<and>
          out s + nat (sint x' - sint (0 :: c_int)) < length (outbuf s)"
        using "1.prems" [of y x'] True by simp
    qed
    then obtain s1 where r: "row_loop yData uvData width uv_flipped y 0 s = Inr s1" ..
    note row = row_loop_Inr [OF r, simplified, folded W_def]
    have p1: "pY s1 = pY s + W" and o1: "out s1 = out s + W"
      and l1: "length (outbuf s1) = length (outbuf s)"
      using row by simp_all
    have sy: "sint (y + 1) = sint y + 1" using True by (rule sint_Suc_sless)
    have "\<exists>s'. frame_loop yData uvData width height uv_flipped (y + 1) s1 = Inr s'"
    proof (rule "1.IH" [OF True r])
      fix y' x' assume y': "y + 1 \<le>s y'" "y' <s height" and x': "0 \<le>s x'" "x' <s width"
      have "y \<le>s y'" using y' sy by (simp add: word_sle_eq)
      moreover have "nat (sint y' - sint y) = Suc (nat (sint y' - sint (y + 1)))"
        using y' sy by (simp add: word_sle_eq)
      ultimately show "reads_ok yData uvData width y' x'
          (pY s1 + (nat (sint y' - sint (y + 1)) * nat (sint width) + nat (sint x'))) \<and>
        out s1 + (nat (sint y' - sint (y + 1)) * nat (sint width) + nat (sint x')) < length (outbuf s1)"
        using "1.prems" [of y' x'] y'(2) x' by (simp add: p1 o1 l1 W_def add.assoc)
    qed
    with r True show ?thesis by (simp add: frame_loop.simps [of _ _ _ _ _ y])
  qed
qed

lemma Convert_succeeds:
  assumes "\<And>y x. 0 \<le>s y \<Longrightarrow> y <s height \<Longrightarrow> 0 \<le>s x \<Longrightarrow> x <s width \<Longrightarrow>
      reads_ok yData uvData width y x (nat (sint y) * nat (sint width) + nat (sint x)) \<and>
      nat (sint y) * nat (sint width) + nat (sint x) < length ob"
  shows "\<exists>s'. ConvertYUV420SPToARGB8888 yData uvData ob width height uv_flipped = Inr s'"
  unfolding ConvertYUV420SPToARGB8888_def
  by (rule frame_loop_succeeds) (use assms in simp)

section \<open>The chroma offset\<close>

lemma sint_offset_of:
  fixes width y x :: c_int
  assumes "- 2147483648 \<le> (sint y div 2) * sint width + 2 * (sint x div 2)"
    and "(sint y div 2) * sint width + 2 * (sint x div 2) < 2147483648"
  shows "sint (offset_of width y x) = (sint y div 2) * sint width + 2 * (sint x div 2)"
proof -
  have h: "signed_drop_bit 1 v = word_of_int (sint v div 2)" for v :: c_int
  proof -
    have "sint (signed_drop_bit 1 v) = sint v div 2"
      by (simp add: sint_signed_drop_bit_eq drop_bit_eq_div)
    then have "word_of_int (sint (signed_drop_bit 1 v)) = (word_of_int (sint v div 2) :: c_int)"
      by simp
    then show ?thesis by simp
  qed
  have "offset_of width y x
      = word_of_int (sint y div 2) * word_of_int (sint width) + 2 * word_of_int (sint x div 2)"
    unfolding offset_of_def h by simp
  also have "\<dots> = word_of_int ((sint y div 2) * sint width + 2 * (sint x div 2))"
    by simp
  finally show ?thesis
    using assms by (simp add: sint_sbintrunc' signed_take_bit_int_eq_self del: of_int_add of_int_mult)
qed

lemma offset_bound:
  fixes W H X Y :: int
  assumes "0 \<le> X" "X < W" "0 \<le> Y" "Y < H" "even W" "even H"
  shows "0 \<le> (Y div 2) * W + 2 * (X div 2)"
    and "(Y div 2) * W + 2 * (X div 2) + 2 \<le> W * H div 2"
proof -
  have y0: "0 \<le> Y div 2" and x0: "0 \<le> X div 2" using assms by simp_all
  from assms obtain w h where W: "W = 2 * w" and H: "H = 2 * h" by (auto elim!: evenE)
  have w0: "0 \<le> w" using assms W by simp
  have "Y div 2 \<le> h - 1" using assms(4) H by presburger
  then have "(Y div 2) * W \<le> (h - 1) * W" using assms by (intro mult_right_mono) simp_all
  moreover have "2 * (X div 2) \<le> W - 2" using assms(2) W by presburger
  moreover have "W * H div 2 = h * W" by (simp add: H)
  ultimately show "(Y div 2) * W + 2 * (X div 2) + 2 \<le> W * H div 2"
    by (simp add: algebra_simps)
  show "0 \<le> (Y div 2) * W + 2 * (X div 2)"
    using y0 x0 assms by simp
qed

lemma luma_bound:
  fixes W H X Y :: nat
  assumes "X < W" "Y < H"
  shows "Y * W + X < H * W"
proof -
  have "Y * W + X < Y * W + W" using assms by simp
  also have "\<dots> = Suc Y * W" by simp
  also have "\<dots> \<le> H * W" using assms by (intro mult_le_mono1) simp
  finally show ?thesis .
qed

lemma even_sint_iff: "even (sint w) \<longleftrightarrow> even w" for w :: c_int
proof -
  have "even (sint w) \<longleftrightarrow> \<not> bit (sint w) 0" by (simp add: bit_0)
  also have "\<dots> \<longleftrightarrow> \<not> bit w 0" by (simp add: bit_sint_iff)
  also have "\<dots> \<longleftrightarrow> even w" by (simp add: bit_0)
  finally show ?thesis .
qed

lemma even_offset_of:
  assumes "even (sint width)"
  shows "even (sint (offset_of width y x))"
  using assms unfolding even_sint_iff offset_of_def by simp

lemma sint_Suc_even:
  fixes w :: c_int
  assumes "even (sint w)"
  shows "sint (w + 1) = sint w + 1"
proof -
  have "sint w < 2147483648" using sint_lt [of w] by simp
  with assms have "sint w + 1 < 2147483648" by presburger
  moreover have "- 2147483648 \<le> sint w + 1" using sint_ge [of w] by simp
  moreover have "sint (w + 1) = signed_take_bit 31 (sint w + 1)"
    by (simp add: sint_word_ariths)
  ultimately show ?thesis by (simp add: signed_take_bit_int_eq_self)
qed

section \<open>Swapping the chroma plane\<close>

lemma length_swap_uv: "length (swap_uv xs) = length xs"
  by (induction xs rule: swap_uv.induct) simp_all

lemma swap_uv_nth:
  "even i \<Longrightarrow> Suc i < length xs \<Longrightarrow> swap_uv xs ! i = xs ! Suc i \<and> swap_uv xs ! Suc i = xs ! i"
proof (induction xs arbitrary: i rule: swap_uv.induct)
  case (1 a b rest)
  show ?case
  proof (cases i)
    case 0
    then show ?thesis by simp
  next
    case (Suc j)
    with "1.prems" obtain k where k: "i = Suc (Suc k)" "even k"
      by (cases j) auto
    with "1.prems" have "Suc k < length rest" by simp
    from "1.IH" [OF k(2) this] show ?thesis by (simp add: k)
  qed
qed simp_all

lemma pixel_of_flip: "pixel_of True bY b0 b1 = pixel_of False bY b1 b0"
  by (simp add: pixel_of_def)

lemma pixel_body_flip:
  assumes "even (sint width)"
  shows "pixel_body yData uvData width True y x s
       = pixel_body yData (swap_uv uvData) width False y x s"
proof -
  define off where "off = offset_of width y x"
  have ev: "even (sint off)" unfolding off_def using assms by (rule even_offset_of)
  have s1: "sint (off + 1) = sint off + 1" using ev by (rule sint_Suc_even)
  show ?thesis
  proof (cases "0 \<le> sint off \<and> sint off + 1 < int (length uvData)")
    case False
    then show ?thesis
      by (auto simp add: pixel_body_def load_def Let_def length_swap_uv s1
          simp flip: off_def split: sum.splits)
  next
    case True
    define i where "i = nat (sint off)"
    have i: "even i" "Suc i < length uvData" "nat (sint off + 1) = Suc i"
    proof -
      show "even i" using True ev by (simp add: i_def even_nat_iff)
      show "Suc i < length uvData" using True unfolding i_def by linarith
      show "nat (sint off + 1) = Suc i" using True unfolding i_def by linarith
    qed
    from swap_uv_nth [OF i(1) i(2)] True show ?thesis
      by (simp add: pixel_body_def load_def Let_def length_swap_uv s1 i(3) pixel_of_flip
          flip: off_def i_def)
  qed
qed

lemma row_loop_flip:
  "even (sint width) \<Longrightarrow> uv_flipped \<Longrightarrow>
   row_loop yData uvData width uv_flipped y x s
     = row_loop yData (swap_uv uvData) width False y x s"
proof (induction yData uvData width uv_flipped y x s rule: row_loop.induct)
  case (1 yData uvData width uv_flipped y x s)
  show ?case
  proof (cases "x <s width")
    case False
    then show ?thesis by (simp add: row_loop.simps)
  next
    case True
    have b: "pixel_body yData uvData width uv_flipped y x s
           = pixel_body yData (swap_uv uvData) width False y x s"
      using "1.prems" pixel_body_flip by simp
    show ?thesis
    proof (cases "pixel_body yData uvData width uv_flipped y x s")
      case (Inl e)
      moreover from Inl b have "pixel_body yData (swap_uv uvData) width False y x s = Inl e"
        by simp
      ultimately show ?thesis using True
        by (simp add: row_loop.simps [of _ _ _ _ _ x])
    next
      case (Inr s1)
      moreover from Inr b have "pixel_body yData (swap_uv uvData) width False y x s = Inr s1"
        by simp
      ultimately show ?thesis using "1.IH" [OF True Inr "1.prems"] True
        by (simp add: row_loop.simps [of _ _ _ _ _ x])
    qed
  qed
qed

lemma frame_loop_flip:
  "even (sint width) \<Longrightarrow> uv_flipped \<Longrightarrow>
   frame_loop yData uvData width height uv_flipped y s
     = frame_loop yData (swap_uv uvData) width height False y s"
proof (induction yData uvData width height uv_flipped y s rule: frame_loop.induct)
  case (1 yData uvData width height uv_flipped y s)
  show ?case
  proof (cases "y <s height")
    case False
    then show ?thesis by (simp add: frame_loop.simps)
  next
    case True
    have r: "row_loop yData uvData width uv_flipped y 0 s
           = row_loop yData (swap_uv uvData) width False y 0 s"
      using "1.prems" by (rule row_loop_flip)
    show ?thesis
    proof (cases "row_loop yData uvData width uv_flipped y 0 s")
      case (Inl e)
      moreover from Inl r have "row_loop yData (swap_uv uvData) width False y 0 s = Inl e"
        by simp
      ultimately show ?thesis using True
        by (simp add: frame_loop.simps [of _ _ _ _ _ y])
    next
      case (Inr s1)
      moreover from Inr r have "row_loop yData (swap_uv uvData) width False y 0 s = Inr s1"
        by simp
      ultimately show ?thesis using "1.IH" [OF True Inr "1.prems"] True
        by (simp add: frame_loop.simps [of _ _ _ _ _ y])
    qed
  qed
qed

section \<open>Pixels and indices\<close>

lemma pixel_index_ex:
  fixes width height :: c_int
  assumes "i < nat (sint height) * nat (sint width)"
  shows "\<exists>y x. 0 \<le>s y \<and> y <s height \<and> 0 \<le>s x \<and> x <s width \<and>
           i = nat (sint y) * nat (sint width) + nat (sint x)"
proof -
  define W where "W = nat (sint width)"
  define H where "H = nat (sint height)"
  have W0: "0 < W" using assms by (cases "W = 0") (simp_all add: W_def)
  have r: "i mod W < W" using W0 by simp
  have q: "i div W < H" using assms W0 by (simp add: W_def H_def less_mult_imp_div_less)
  have Wb: "int W < 2147483648" using sint_lt [of width] by (simp add: W_def)
  have Hb: "int H < 2147483648" using sint_lt [of height] by (simp add: H_def)
  have sn: "sint (word_of_nat n :: c_int) = int n" if "int n < 2147483648" for n
  proof -
    have "sint (word_of_int (int n) :: c_int) = int n"
      using that by (intro sint_wi32) simp_all
    then show ?thesis by simp
  qed
  have sx: "sint (word_of_nat (i mod W) :: c_int) = int (i mod W)"
    using r Wb by (intro sn) linarith
  have sy: "sint (word_of_nat (i div W) :: c_int) = int (i div W)"
    using q Hb by (intro sn) linarith
  have "0 \<le>s (word_of_nat (i div W) :: c_int)"
    "(word_of_nat (i div W) :: c_int) <s height"
    "0 \<le>s (word_of_nat (i mod W) :: c_int)"
    "(word_of_nat (i mod W) :: c_int) <s width"
  proof -
    have "int (i mod W) < sint width" using r unfolding W_def by linarith
    moreover have "int (i div W) < sint height" using q unfolding H_def by linarith
    ultimately show "0 \<le>s (word_of_nat (i div W) :: c_int)"
      "(word_of_nat (i div W) :: c_int) <s height"
      "0 \<le>s (word_of_nat (i mod W) :: c_int)"
      "(word_of_nat (i mod W) :: c_int) <s width"
      unfolding word_sle_eq word_sless_alt sx sy by simp_all
  qed
  moreover have "i = nat (sint (word_of_nat (i div W) :: c_int)) * W
      + nat (sint (word_of_nat (i mod W) :: c_int))"
    unfolding sx sy by simp
  ultimately show ?thesis unfolding W_def by blast
qed

section \<open>The clamp and the shift\<close>

lemma clamp_range:
  "0 \<le> sint (MIN_i kMaxChannelValue (MAX_i 0 n)) \<and> sint (MIN_i kMaxChannelValue (MAX_i 0 n)) \<le> 262143"
  by (simp add: MIN_i_def MAX_i_def kMaxChannelValue_def word_sless_alt)

lemma shifted_byte:
  fixes c :: c_int
  assumes "0 \<le> sint c" "sint c \<le> 262143"
  shows "signed_drop_bit 10 c AND 0xff = signed_drop_bit 10 c"
    and "0 \<le> sint (signed_drop_bit 10 c)" and "sint (signed_drop_bit 10 c) \<le> 255"
proof -
  have c: "c = word_of_int (sint c)" by simp
  have d: "signed_drop_bit 10 c = word_of_int (sint c div 1024)"
    using sdrop_wi [of "sint c" 10] assms by (simp add: drop_bit_eq_div)
  have r: "0 \<le> sint c div 1024" "sint c div 1024 \<le> 255" using assms by simp_all
  then have s: "sint (signed_drop_bit 10 c) = sint c div 1024"
    unfolding d by (intro sint_wi32) simp_all
  show "0 \<le> sint (signed_drop_bit 10 c)" "sint (signed_drop_bit 10 c) \<le> 255"
    using r s by simp_all
  have "take_bit 8 (sint c div 1024) = sint c div 1024"
    using r by (simp add: take_bit_int_eq_self)
  then have "(sint c div 1024) AND 0xff = sint c div 1024"
    by (simp add: take_bit_eq_mask mask_eq_exp_minus_1)
  then have "(word_of_int (sint c div 1024) :: c_int) AND word_of_int 0xff = word_of_int (sint c div 1024)"
    by (simp only: word_wi_log_defs)
  then show "signed_drop_bit 10 c AND 0xff = signed_drop_bit 10 c"
    unfolding d by simp
qed

section \<open>The alpha byte, and the frame of one block\<close>

lemma alpha_YUV2RGB: "drop_bit 24 (YUV2RGB nY nU nV) = 0xff"
  unfolding YUV2RGB_def Let_def
  by (rule bit_word_eqI) (auto simp add: bit_simps)

lemma two_by_two:
  "ConvertYUV420SPToARGB8888 [y0, y1, y2, y3] [c0, c1] [o0, o1, o2, o3] 2 2 uv_flipped
     = Inr \<lparr>pY = 4, out = 4,
            outbuf = [pixel_of uv_flipped y0 c0 c1, pixel_of uv_flipped y1 c0 c1,
                      pixel_of uv_flipped y2 c0 c1, pixel_of uv_flipped y3 c0 c1]\<rparr>"
proof -
  have c: "(0 :: c_int) <s 2" "(1 :: c_int) <s 2" "\<not> (2 :: c_int) <s 2"
    by (simp_all add: word_sless_alt)
  have o: "offset_of 2 0 0 = 0" "offset_of 2 0 1 = 0" "offset_of 2 1 0 = 0" "offset_of 2 1 1 = 0"
    by (simp_all add: offset_of_def)
  have r: "row_loop ys [c0, c1] 2 uv_flipped y 0 \<lparr>pY = p, out = p, outbuf = b\<rparr>
      = Inr \<lparr>pY = p + 2, out = p + 2,
            outbuf = b[p := pixel_of uv_flipped (ys ! p) c0 c1,
                       Suc p := pixel_of uv_flipped (ys ! Suc p) c0 c1]\<rparr>"
    if "offset_of 2 y 0 = 0" "offset_of 2 y 1 = 0" "Suc p < 4" "length b = 4" "length ys = 4"
    for y p b and ys :: "uint8_t list"
    using that
    by (simp add: row_loop.simps [of _ _ _ _ _ 0] row_loop.simps [of _ _ _ _ _ 1]
        row_loop.simps [of _ _ _ _ _ 2] c pixel_body_def load_def Let_def nat_add_distrib)
  show ?thesis
    unfolding ConvertYUV420SPToARGB8888_def
    by (simp add: frame_loop.simps [of _ _ _ _ _ 0] frame_loop.simps [of _ _ _ _ _ 1]
        frame_loop.simps [of _ _ _ _ _ 2] c r o)
qed

section \<open>Claims about the colour math\<close>

text \<open>
  C5. The known vectors. \<open>Y = 16, U = 128, V = 128\<close> gives exactly the opaque black pixel
  \<open>0xFF000000\<close>. \<open>Y = 235, U = 128, V = 128\<close> gives the opaque pixel whose three channels
  are all \<open>254\<close>, one level below \<open>255\<close>: \<open>1192 * 219 = 261048\<close> is under the clamp and
  its shift by 10 bits truncates to \<open>254\<close>.
\<close>

theorem known_vectors:
  "YUV2RGB 16 128 128 = 0xFF000000 \<and>
   YUV2RGB 235 128 128 = (0xFF000000 OR push_bit 16 254 OR push_bit 8 254 OR 254)"
  by (simp add: YUV2RGB_def MIN_i_def MAX_i_def kMaxChannelValue_def word_sless_alt)

text \<open>
  C9. Luma at or below 16 is crushed: for every \<open>nY\<close> in \<open>[0, 16]\<close> and every chroma
  pair, \<open>YUV2RGB nY nU nV = YUV2RGB 16 nU nV\<close>, and with \<open>U = V = 128\<close> the result is the
  opaque black pixel. The chroma arguments range over all of \<^verbatim>\<open>int\<close>.
\<close>

theorem low_luma_crushed:
  "0 \<le>s nY \<and> nY \<le>s 16 \<longrightarrow>
     YUV2RGB nY nU nV = YUV2RGB 16 nU nV \<and> YUV2RGB nY 128 128 = 0xFF000000"
proof
  assume a: "0 \<le>s nY \<and> nY \<le>s 16"
  then have r: "0 \<le> sint nY" "sint nY \<le> 16" by (simp_all add: word_sle_eq)
  have "nY - 16 = word_of_int (sint nY - 16)" by simp
  moreover have "sint (word_of_int (sint nY - 16) :: c_int) = sint nY - 16"
    using r by (intro sint_wi32) simp_all
  ultimately have s: "sint (nY - 16) = sint nY - 16" by simp
  have y: "(if nY - 16 <s 0 then 0 else nY - 16) = 0"
  proof (cases "sint nY = 16")
    case True
    then have "sint (nY - 16) = sint (0 :: c_int)" using s by simp
    then have "nY - 16 = 0" by (rule signed_word_eqI)
    then show ?thesis by simp
  next
    case False
    then have "nY - 16 <s 0" using r s by (simp add: word_sless_alt)
    then show ?thesis by simp
  qed
  have e: "YUV2RGB nY u v = YUV2RGB 16 u v" for u v
    unfolding YUV2RGB_def Let_def y by simp
  have "YUV2RGB 16 128 128 = 0xFF000000"
    by (simp add: YUV2RGB_def MIN_i_def MAX_i_def kMaxChannelValue_def word_sless_alt)
  with e show "YUV2RGB nY nU nV = YUV2RGB 16 nU nV \<and> YUV2RGB nY 128 128 = 0xFF000000"
    by simp
qed

theorem low_luma_crushed_witness:
  "(0 :: c_int) \<le>s 7 \<and> (7 :: c_int) \<le>s 16 \<and>
   YUV2RGB 7 200 31 = YUV2RGB 16 200 31 \<and> YUV2RGB 7 128 128 = 0xFF000000"
  using low_luma_crushed [of 7 200 31] by (simp add: word_sle_eq)

text \<open>
  C10. The 8-bit mask after the shift is redundant. For every \<^verbatim>\<open>int\<close> \<open>n\<close>, the clamped
  and shifted channel is unchanged by \<open>AND 0xff\<close> and lies in \<open>[0, 255]\<close>; hence \<open>YUV2RGB\<close>
  equals the same computation with the three masks left out.
\<close>

theorem mask_after_shift_redundant:
  "signed_drop_bit 10 (MIN_i kMaxChannelValue (MAX_i 0 n)) AND 0xff
     = signed_drop_bit 10 (MIN_i kMaxChannelValue (MAX_i 0 n)) \<and>
   0 \<le>s signed_drop_bit 10 (MIN_i kMaxChannelValue (MAX_i 0 n)) \<and>
   signed_drop_bit 10 (MIN_i kMaxChannelValue (MAX_i 0 n)) \<le>s 255 \<and>
   YUV2RGB nY nU nV =
     (let nY1 = nY - 16;
          nU1 = nU - 128;
          nV1 = nV - 128;
          nY2 = (if nY1 <s 0 then 0 else nY1);
          nR = 1192 * nY2 + 1634 * nV1;
          nG = 1192 * nY2 - 833 * nV1 - 400 * nU1;
          nB = 1192 * nY2 + 2066 * nU1;
          nR1 = MIN_i kMaxChannelValue (MAX_i 0 nR);
          nG1 = MIN_i kMaxChannelValue (MAX_i 0 nG);
          nB1 = MIN_i kMaxChannelValue (MAX_i 0 nB);
          nR2 = signed_drop_bit 10 nR1;
          nG2 = signed_drop_bit 10 nG1;
          nB2 = signed_drop_bit 10 nB1
      in 0xff000000 OR push_bit 16 nR2 OR push_bit 8 nG2 OR nB2)"
proof -
  have m: "signed_drop_bit 10 (MIN_i kMaxChannelValue (MAX_i 0 k)) AND 0xff
     = signed_drop_bit 10 (MIN_i kMaxChannelValue (MAX_i 0 k))" for k
    using clamp_range [of k] by (intro shifted_byte) simp_all
  have "0 \<le>s signed_drop_bit 10 (MIN_i kMaxChannelValue (MAX_i 0 n))"
    "signed_drop_bit 10 (MIN_i kMaxChannelValue (MAX_i 0 n)) \<le>s 255"
    using shifted_byte(2,3) [of "MIN_i kMaxChannelValue (MAX_i 0 n)"] clamp_range [of n]
    by (simp_all add: word_sle_eq)
  moreover note m [of n]
  moreover have "YUV2RGB nY nU nV =
     (let nY1 = nY - 16;
          nU1 = nU - 128;
          nV1 = nV - 128;
          nY2 = (if nY1 <s 0 then 0 else nY1);
          nR = 1192 * nY2 + 1634 * nV1;
          nG = 1192 * nY2 - 833 * nV1 - 400 * nU1;
          nB = 1192 * nY2 + 2066 * nU1;
          nR1 = MIN_i kMaxChannelValue (MAX_i 0 nR);
          nG1 = MIN_i kMaxChannelValue (MAX_i 0 nG);
          nB1 = MIN_i kMaxChannelValue (MAX_i 0 nB);
          nR2 = signed_drop_bit 10 nR1;
          nG2 = signed_drop_bit 10 nG1;
          nB2 = signed_drop_bit 10 nB1
      in 0xff000000 OR push_bit 16 nR2 OR push_bit 8 nG2 OR nB2)"
    unfolding YUV2RGB_def Let_def m ..
  ultimately show ?thesis by blast
qed

section \<open>Claims about the frame conversion\<close>

text \<open>
  In the theorems below a pixel \<open>(x, y)\<close> is a pair of \<^verbatim>\<open>int\<close> loop variables with
  \<open>0 \<le>s y <s height\<close> and \<open>0 \<le>s x <s width\<close>; its luma and output index is
  \<open>nat (sint y) * nat (sint width) + nat (sint x)\<close>, the value of both running pointers
  when the iteration starts. A run that returns \<open>Inr s'\<close> made every access inside its
  buffers.
\<close>

text \<open>
  C1. Every pixel is the 32-bit word of the fixed-point recipe. On bytes, \<open>YUV2RGB\<close> is
  \<open>recipe_ARGB\<close> exactly (no intermediate value leaves the 32-bit range); and the word a
  successful conversion stores for pixel \<open>(x, y)\<close> is the recipe applied to the luma byte
  of the pixel and to the chroma pair at \<open>offset_of width y x\<close>, where U is the second
  byte of the pair and V the first in the Android build, and \<open>uv_flipped\<close> exchanges them.
\<close>

theorem pixel_is_recipe:
  "uint (YUV2RGB (ucast bY) (ucast bU) (ucast bV))
     = recipe_ARGB (uint (bY :: uint8_t)) (uint (bU :: uint8_t)) (uint (bV :: uint8_t)) \<and>
   (ConvertYUV420SPToARGB8888 yData uvData ob width height uv_flipped = Inr s' \<longrightarrow>
    0 \<le>s y \<and> y <s height \<and> 0 \<le>s x \<and> x <s width \<longrightarrow>
      (let i = nat (sint y) * nat (sint width) + nat (sint x);
           b0 = uvData ! nat (sint (offset_of width y x));
           b1 = uvData ! nat (sint (offset_of width y x + 1));
           U = (if uv_flipped = APPLE then b1 else b0);
           V = (if uv_flipped = APPLE then b0 else b1)
       in uint (outbuf s' ! i) = recipe_ARGB (uint (yData ! i)) (uint U) (uint V)))"
proof (intro conjI impI)
  show "uint (YUV2RGB (ucast bY) (ucast bU) (ucast bV))
     = recipe_ARGB (uint bY) (uint bU) (uint bV)"
    by (rule YUV2RGB_bytes)
next
  assume run: "ConvertYUV420SPToARGB8888 yData uvData ob width height uv_flipped = Inr s'"
    and "0 \<le>s y \<and> y <s height \<and> 0 \<le>s x \<and> x <s width"
  then have xy: "0 \<le>s y" "y <s height" "0 \<le>s x" "x <s width" by simp_all
  define i where "i = nat (sint y) * nat (sint width) + nat (sint x)"
  have "outbuf s' ! i = pixel_at uv_flipped yData uvData width y x i"
    unfolding i_def using run xy by (rule Convert_Inr(6))
  then show "let i = nat (sint y) * nat (sint width) + nat (sint x);
           b0 = uvData ! nat (sint (offset_of width y x));
           b1 = uvData ! nat (sint (offset_of width y x + 1));
           U = (if uv_flipped = APPLE then b1 else b0);
           V = (if uv_flipped = APPLE then b0 else b1)
       in uint (outbuf s' ! i) = recipe_ARGB (uint (yData ! i)) (uint U) (uint V)"
    unfolding Let_def i_def [symmetric]
    by (cases uv_flipped; cases APPLE) (simp_all add: pixel_at_def pixel_of_def YUV2RGB_bytes)
qed

theorem pixel_is_recipe_witness:
  "ConvertYUV420SPToARGB8888 [16, 235, 81, 200] [240, 90] [0, 0, 0, 0] 2 2 False
     = Inr \<lparr>pY = 4, out = 4, outbuf = [0xFFB20000, 0xFFFFB2B2, 0xFFFE0000, 0xFFFF8989]\<rparr> \<and>
   (0 :: c_int) \<le>s 1 \<and> (1 :: c_int) <s 2 \<and>
   uint (0xFFFF8989 :: uint32_t) = recipe_ARGB 200 90 240"
proof -
  have run: "ConvertYUV420SPToARGB8888 [16, 235, 81, 200] [240, 90] [0, 0, 0, 0] 2 2 False
     = Inr \<lparr>pY = 4, out = 4, outbuf = [0xFFB20000, 0xFFFFB2B2, 0xFFFE0000, 0xFFFF8989]\<rparr>"
    by code_simp
  have xy: "(0 :: c_int) \<le>s 1" "(1 :: c_int) <s 2" by (simp_all add: word_sle_eq word_sless_alt)
  from pixel_is_recipe [of 0 0 0 "[16, 235, 81, 200]" "[240, 90]" "[0, 0, 0, 0]" 2 2 False _ 1 1,
      THEN conjunct2, rule_format, OF run] xy
  have "uint (0xFFFF8989 :: uint32_t) = recipe_ARGB 200 90 240"
    by (simp add: Let_def offset_of_def APPLE_def)
  with run xy show ?thesis by simp
qed

text \<open>
  C2. The alpha byte is \<open>0xFF\<close>: for every result of \<open>YUV2RGB\<close>, and so for every element
  a successful conversion has written (the elements below the final \<open>out\<close> pointer).
\<close>

theorem alpha_opaque:
  "drop_bit 24 (YUV2RGB nY nU nV) = 0xff \<and>
   (ConvertYUV420SPToARGB8888 yData uvData ob width height uv_flipped = Inr s' \<longrightarrow>
      (\<forall>i < out s'. drop_bit 24 (outbuf s' ! i) = 0xff))"
proof (intro conjI impI allI)
  show "drop_bit 24 (YUV2RGB nY nU nV) = 0xff" by (rule alpha_YUV2RGB)
next
  fix i
  assume run: "ConvertYUV420SPToARGB8888 yData uvData ob width height uv_flipped = Inr s'"
    and i: "i < out s'"
  from i have "i < nat (sint height) * nat (sint width)"
    using Convert_Inr(2) [OF run] by simp
  then obtain y x where xy: "0 \<le>s y" "y <s height" "0 \<le>s x" "x <s width"
    and e: "i = nat (sint y) * nat (sint width) + nat (sint x)"
    using pixel_index_ex by blast
  have "outbuf s' ! i = pixel_at uv_flipped yData uvData width y x i"
    unfolding e using run xy by (rule Convert_Inr(6))
  then show "drop_bit 24 (outbuf s' ! i) = 0xff"
    by (simp add: pixel_at_def pixel_of_def Let_def alpha_YUV2RGB)
qed

theorem alpha_opaque_witness:
  "ConvertYUV420SPToARGB8888 [16, 235, 81, 200] [240, 90] [0, 0, 0, 0] 2 2 True
     = Inr \<lparr>pY = 4, out = 4, outbuf = [4278190305, 4290966271, 4279189247, 4288268799]\<rparr> \<and>
   drop_bit 24 (4278190305 :: uint32_t) = 0xff \<and> drop_bit 24 (4290966271 :: uint32_t) = 0xff \<and>
   drop_bit 24 (4279189247 :: uint32_t) = 0xff \<and> drop_bit 24 (4288268799 :: uint32_t) = 0xff"
proof -
  have run: "ConvertYUV420SPToARGB8888 [16, 235, 81, 200] [240, 90] [0, 0, 0, 0] 2 2 True
     = Inr \<lparr>pY = 4, out = 4, outbuf = [4278190305, 4290966271, 4279189247, 4288268799]\<rparr>"
    by code_simp
  from alpha_opaque [of 0 0 0 "[16, 235, 81, 200]" "[240, 90]" "[0, 0, 0, 0]" 2 2 True,
      THEN conjunct2, rule_format, OF run]
  have a: "\<forall>i < 4. drop_bit 24 ([4278190305, 4290966271, 4279189247, 4288268799 :: uint32_t] ! i) = 0xff"
    by simp
  from a [rule_format, of 0] a [rule_format, of 1] a [rule_format, of 2] a [rule_format, of 3]
  have "drop_bit 24 (4278190305 :: uint32_t) = 0xff" "drop_bit 24 (4290966271 :: uint32_t) = 0xff"
    "drop_bit 24 (4279189247 :: uint32_t) = 0xff" "drop_bit 24 (4288268799 :: uint32_t) = 0xff"
    by (simp_all del: drop_bit_word_numeral)
  with run show ?thesis by blast
qed

text \<open>
  C3, as amended. For every positive even width and height whose product is at most
  \<open>2^32\<close>, on a luma plane of at least \<open>width * height\<close> bytes, a chroma plane of at
  least \<open>width * height / 2\<close> bytes and an output buffer of at least \<open>width * height\<close>
  elements, the conversion returns without a fault, having advanced \<open>out\<close> (and \<open>pY\<close>) by
  exactly \<open>width * height\<close> and left the output buffer from there on as it was; each
  luma index is below \<open>width * height\<close>, and each chroma
  index, \<open>offset\<close> and \<open>offset + 1\<close>, is computed without overflow, is not negative and
  is below \<open>width * height / 2\<close>.
\<close>

theorem reads_in_bounds:
  assumes pos: "0 <s width" "0 <s height"
    and ev: "even (sint width)" "even (sint height)"
    and fit: "sint width * sint height \<le> 4294967296"
    and ly: "nat (sint width) * nat (sint height) \<le> length yData"
    and luv: "nat (sint width) * nat (sint height) div 2 \<le> length uvData"
    and lo: "nat (sint width) * nat (sint height) \<le> length ob"
  shows "\<exists>s'. ConvertYUV420SPToARGB8888 yData uvData ob width height uv_flipped = Inr s' \<and>
           out s' = nat (sint width) * nat (sint height) \<and>
           pY s' = nat (sint width) * nat (sint height) \<and>
           length (outbuf s') = length ob \<and>
           (\<forall>i. nat (sint width) * nat (sint height) \<le> i \<longrightarrow> outbuf s' ! i = ob ! i) \<and>
           (\<forall>y x. 0 \<le>s y \<and> y <s height \<and> 0 \<le>s x \<and> x <s width \<longrightarrow>
              nat (sint y) * nat (sint width) + nat (sint x) < nat (sint width) * nat (sint height) \<and>
              sint (offset_of width y x) = (sint y div 2) * sint width + 2 * (sint x div 2) \<and>
              sint (offset_of width y x + 1) = sint (offset_of width y x) + 1 \<and>
              0 \<le> sint (offset_of width y x) \<and>
              sint (offset_of width y x + 1) < int (nat (sint width) * nat (sint height) div 2))"
proof -
  define W where "W = nat (sint width)"
  define H where "H = nat (sint height)"
  have W: "sint width = int W" and H: "sint height = int H"
    using pos by (simp_all add: W_def H_def word_sless_alt)
  have half: "sint width * sint height div 2 = int (W * H div 2)"
    by (simp add: W H zdiv_int)
  have idx: "nat (sint y) * W + nat (sint x) < W * H \<and>
      sint (offset_of width y x) = (sint y div 2) * sint width + 2 * (sint x div 2) \<and>
      sint (offset_of width y x + 1) = sint (offset_of width y x) + 1 \<and>
      0 \<le> sint (offset_of width y x) \<and>
      sint (offset_of width y x + 1) < int (W * H div 2)"
    if xy: "0 \<le>s y" "y <s height" "0 \<le>s x" "x <s width" for y x
  proof -
    have r: "0 \<le> sint x" "sint x < sint width" "0 \<le> sint y" "sint y < sint height"
      using xy by (simp_all add: word_sle_eq word_sless_alt)
    have "nat (sint y) * W + nat (sint x) < H * W"
      using r by (intro luma_bound) (simp_all add: W_def H_def)
    then have a: "nat (sint y) * W + nat (sint x) < W * H" by (simp add: mult.commute)
    note b = offset_bound [OF r ev]
    have "sint width * sint height div 2 \<le> 2147483648" using fit by simp
    with b have c: "(sint y div 2) * sint width + 2 * (sint x div 2) < 2147483648" by simp
    have o: "sint (offset_of width y x) = (sint y div 2) * sint width + 2 * (sint x div 2)"
      using b(1) c by (intro sint_offset_of) simp_all
    have "even (sint (offset_of width y x))" using ev(1) by (rule even_offset_of)
    then have o1: "sint (offset_of width y x + 1) = sint (offset_of width y x) + 1"
      by (rule sint_Suc_even)
    from a o o1 b show ?thesis by (simp add: half)
  qed
  have "\<exists>s'. ConvertYUV420SPToARGB8888 yData uvData ob width height uv_flipped = Inr s'"
  proof (rule Convert_succeeds)
    fix y x assume xy: "0 \<le>s y" "y <s height" "0 \<le>s x" "x <s width"
    note i = idx [OF xy]
    from i luv have "sint (offset_of width y x + 1) < int (length uvData)"
      unfolding W_def H_def by linarith
    with i ly lo show "reads_ok yData uvData width y x (nat (sint y) * nat (sint width) + nat (sint x)) \<and>
        nat (sint y) * nat (sint width) + nat (sint x) < length ob"
      unfolding reads_ok_def W_def H_def by simp
  qed
  then obtain s' where run: "ConvertYUV420SPToARGB8888 yData uvData ob width height uv_flipped = Inr s'" ..
  have o: "out s' = W * H" and "pY s' = W * H" and "length (outbuf s') = length ob"
    using Convert_Inr(1-3) [OF run] by (simp_all add: W_def H_def mult.commute)
  moreover have "\<forall>i. W * H \<le> i \<longrightarrow> outbuf s' ! i = ob ! i"
    using Convert_tail [OF run] o by simp
  ultimately show ?thesis using run idx unfolding W_def H_def by blast
qed

theorem reads_in_bounds_witness:
  "(0 :: c_int) <s 2 \<and> even (sint (2 :: c_int)) \<and> sint (2 :: c_int) * sint (2 :: c_int) \<le> 4294967296 \<and>
   nat (sint (2 :: c_int)) * nat (sint (2 :: c_int)) \<le> length [16, 235, 81, 200 :: uint8_t] \<and>
   nat (sint (2 :: c_int)) * nat (sint (2 :: c_int)) div 2 \<le> length [240, 90 :: uint8_t] \<and>
   nat (sint (2 :: c_int)) * nat (sint (2 :: c_int)) \<le> length [0, 0, 0, 0 :: uint32_t] \<and>
   (\<exists>s'. ConvertYUV420SPToARGB8888 [16, 235, 81, 200] [240, 90] [0, 0, 0, 0] 2 2 False = Inr s' \<and>
         out s' = 4 \<and> pY s' = 4 \<and> length (outbuf s') = 4)"
proof -
  have h: "(0 :: c_int) <s 2" "even (sint (2 :: c_int))"
    "sint (2 :: c_int) * sint (2 :: c_int) \<le> 4294967296"
    "nat (sint (2 :: c_int)) * nat (sint (2 :: c_int)) \<le> length [16, 235, 81, 200 :: uint8_t]"
    "nat (sint (2 :: c_int)) * nat (sint (2 :: c_int)) div 2 \<le> length [240, 90 :: uint8_t]"
    "nat (sint (2 :: c_int)) * nat (sint (2 :: c_int)) \<le> length [0, 0, 0, 0 :: uint32_t]"
    by (simp_all add: word_sless_alt)
  from reads_in_bounds [OF h(1) h(1) h(2) h(2) h(3) h(4) h(5) h(6), of False]
  obtain s' where "ConvertYUV420SPToARGB8888 [16, 235, 81, 200] [240, 90] [0, 0, 0, 0] 2 2 False = Inr s'"
    "out s' = 4" "pY s' = 4" "length (outbuf s') = 4"
    by auto
  with h show ?thesis by blast
qed

text \<open>
  C3, as stated, fails: the bound on the product is needed. For \<open>width = 4\<close> and
  \<open>height = 1073741826\<close>, both positive and even, with buffers of exactly the right
  sizes, the row \<open>y = 1073741825\<close> computes \<open>(y >> 1) * width = 536870912 * 4 = 2^31\<close>,
  which is not an \<^verbatim>\<open>int\<close>: the offset wraps to \<open>- 2^31\<close> and the chroma read is outside
  the plane.
\<close>

theorem huge_frame_counterexample:
  "(0 :: c_int) <s 4 \<and> (0 :: c_int) <s 1073741826 \<and>
   even (sint (4 :: c_int)) \<and> even (sint (1073741826 :: c_int)) \<and>
   length (replicate 4294967304 (0 :: uint8_t))
     = nat (sint (4 :: c_int)) * nat (sint (1073741826 :: c_int)) \<and>
   length (replicate 2147483652 (0 :: uint8_t))
     = nat (sint (4 :: c_int)) * nat (sint (1073741826 :: c_int)) div 2 \<and>
   length (replicate 4294967304 (0 :: uint32_t))
     = nat (sint (4 :: c_int)) * nat (sint (1073741826 :: c_int)) \<and>
   ConvertYUV420SPToARGB8888 (replicate 4294967304 0) (replicate 2147483652 0)
     (replicate 4294967304 0) 4 1073741826 False = Inl OutOfBounds"
proof -
  have "ConvertYUV420SPToARGB8888 (replicate 4294967304 0) (replicate 2147483652 0)
     (replicate 4294967304 0) 4 1073741826 False \<noteq> Inr s'" for s'
  proof
    assume run: "ConvertYUV420SPToARGB8888 (replicate 4294967304 0) (replicate 2147483652 0)
     (replicate 4294967304 0) 4 1073741826 False = Inr s'"
    have xy: "(0 :: c_int) \<le>s 1073741825" "(1073741825 :: c_int) <s 1073741826"
      "(0 :: c_int) \<le>s 0" "(0 :: c_int) <s 4"
      by (simp_all add: word_sle_eq word_sless_alt)
    from Convert_Inr(4) [OF run xy]
    have "0 \<le> sint (offset_of 4 1073741825 0)" by (simp add: reads_ok_def)
    moreover have "offset_of 4 1073741825 0 = 2147483648" by (simp add: offset_of_def)
    ultimately show False by simp
  qed
  then have "ConvertYUV420SPToARGB8888 (replicate 4294967304 0) (replicate 2147483652 0)
     (replicate 4294967304 0) 4 1073741826 False = Inl OutOfBounds"
    by (cases "ConvertYUV420SPToARGB8888 (replicate 4294967304 0) (replicate 2147483652 0)
     (replicate 4294967304 0) 4 1073741826 False") (auto intro: fault.exhaust)
  then show ?thesis by (simp add: word_sless_alt)
qed

text \<open>
  C4. For a frame (its width is even), converting with \<open>uv_flipped = True\<close> equals
  converting, with \<open>uv_flipped = False\<close>, the frame whose chroma plane has the two bytes of
  every pair swapped. The equality is of the whole result: the memory written, the
  pointers, and a fault if there is one.
\<close>

theorem flipped_is_swapped_chroma:
  "even (sint width) \<Longrightarrow>
   ConvertYUV420SPToARGB8888 yData uvData ob width height True
     = ConvertYUV420SPToARGB8888 yData (swap_uv uvData) ob width height False"
  unfolding ConvertYUV420SPToARGB8888_def by (rule frame_loop_flip) simp_all

theorem flipped_is_swapped_chroma_witness:
  "even (sint (2 :: c_int)) \<and>
   swap_uv [240, 90] = [90, 240] \<and>
   ConvertYUV420SPToARGB8888 [16, 235, 81, 200] [240, 90] [0, 0, 0, 0] 2 2 True
     = ConvertYUV420SPToARGB8888 [16, 235, 81, 200] [90, 240] [0, 0, 0, 0] 2 2 False \<and>
   ConvertYUV420SPToARGB8888 [16, 235, 81, 200] [240, 90] [0, 0, 0, 0] 2 2 True
     = Inr \<lparr>pY = 4, out = 4, outbuf = [4278190305, 4290966271, 4279189247, 4288268799]\<rparr>"
proof -
  have e: "even (sint (2 :: c_int))" by simp
  have "ConvertYUV420SPToARGB8888 [16, 235, 81, 200] [240, 90] [0, 0, 0, 0] 2 2 True
     = Inr \<lparr>pY = 4, out = 4, outbuf = [4278190305, 4290966271, 4279189247, 4288268799]\<rparr>"
    by code_simp
  with e flipped_is_swapped_chroma [OF e, of "[16, 235, 81, 200]" "[240, 90]" "[0, 0, 0, 0]" 2]
  show ?thesis by simp
qed

text \<open>
  C6. The chroma pair of pixel \<open>(x, y)\<close> is read at \<open>(y >> 1) * width + 2 * (x >> 1)\<close>,
  where \<open>>> 1\<close> halves; two pixels with the same halved coordinates, that is, of the same
  aligned 2 by 2 block, have the same offset and so the same pair. For a frame of width 2
  and height 2 the four output words are \<open>pixel_of\<close> of the pixel's own luma byte and of
  the one chroma pair.
\<close>

theorem chroma_shared_in_block:
  "(ConvertYUV420SPToARGB8888 yData uvData ob width height uv_flipped = Inr s' \<longrightarrow>
    0 \<le>s y \<and> y <s height \<and> 0 \<le>s x \<and> x <s width \<longrightarrow>
      outbuf s' ! (nat (sint y) * nat (sint width) + nat (sint x))
        = pixel_of uv_flipped (yData ! (nat (sint y) * nat (sint width) + nat (sint x)))
            (uvData ! nat (sint (offset_of width y x)))
            (uvData ! nat (sint (offset_of width y x + 1)))) \<and>
   offset_of width y x = signed_drop_bit 1 y * width + 2 * signed_drop_bit 1 x \<and>
   sint (signed_drop_bit 1 y) = sint y div 2 \<and> sint (signed_drop_bit 1 x) = sint x div 2 \<and>
   (signed_drop_bit 1 y' = signed_drop_bit 1 y \<and> signed_drop_bit 1 x' = signed_drop_bit 1 x \<longrightarrow>
      offset_of width y' x' = offset_of width y x) \<and>
   ConvertYUV420SPToARGB8888 [y0, y1, y2, y3] [c0, c1] [o0, o1, o2, o3] 2 2 uv_flipped
     = Inr \<lparr>pY = 4, out = 4,
            outbuf = [pixel_of uv_flipped y0 c0 c1, pixel_of uv_flipped y1 c0 c1,
                      pixel_of uv_flipped y2 c0 c1, pixel_of uv_flipped y3 c0 c1]\<rparr>"
proof -
  have "outbuf s' ! (nat (sint y) * nat (sint width) + nat (sint x))
        = pixel_of uv_flipped (yData ! (nat (sint y) * nat (sint width) + nat (sint x)))
            (uvData ! nat (sint (offset_of width y x)))
            (uvData ! nat (sint (offset_of width y x + 1)))"
    if "ConvertYUV420SPToARGB8888 yData uvData ob width height uv_flipped = Inr s'"
      and "0 \<le>s y \<and> y <s height \<and> 0 \<le>s x \<and> x <s width"
    using Convert_Inr(6) [OF that(1), of y x] that(2) by (simp add: pixel_at_def)
  moreover have "sint (signed_drop_bit 1 v) = sint v div 2" for v :: c_int
    by (simp add: sint_signed_drop_bit_eq drop_bit_eq_div)
  moreover have "offset_of width y' x' = offset_of width y x"
    if "signed_drop_bit 1 y' = signed_drop_bit 1 y \<and> signed_drop_bit 1 x' = signed_drop_bit 1 x"
    using that by (simp add: offset_of_def)
  moreover note two_by_two [of y0 y1 y2 y3 c0 c1 o0 o1 o2 o3 uv_flipped]
  ultimately show ?thesis by (simp add: offset_of_def)
qed

theorem chroma_shared_in_block_witness:
  "ConvertYUV420SPToARGB8888 [16, 235, 81, 200] [240, 90] [0, 0, 0, 0] 2 2 False
     = Inr \<lparr>pY = 4, out = 4, outbuf = [4289855488, 4294947506, 4294836224, 4294936969]\<rparr> \<and>
   (0 :: c_int) \<le>s 1 \<and> (1 :: c_int) <s 2 \<and>
   signed_drop_bit 1 (0 :: c_int) = signed_drop_bit 1 (1 :: c_int) \<and>
   offset_of 2 0 0 = offset_of 2 1 1 \<and>
   [4289855488, 4294947506, 4294836224, 4294936969 :: uint32_t] ! 3 = pixel_of False 200 240 90"
proof -
  have run: "ConvertYUV420SPToARGB8888 [16, 235, 81, 200] [240, 90] [0, 0, 0, 0] 2 2 False
     = Inr \<lparr>pY = 4, out = 4, outbuf = [4289855488, 4294947506, 4294836224, 4294936969]\<rparr>"
    by code_simp
  have xy: "(0 :: c_int) \<le>s 1 \<and> (1 :: c_int) <s 2 \<and> (0 :: c_int) \<le>s 1 \<and> (1 :: c_int) <s 2"
    by (simp add: word_sle_eq word_sless_alt)
  have h: "signed_drop_bit 1 (0 :: c_int) = signed_drop_bit 1 (1 :: c_int) \<and>
      signed_drop_bit 1 (0 :: c_int) = signed_drop_bit 1 (1 :: c_int)"
    by simp
  note t = chroma_shared_in_block [where yData = "[16, 235, 81, 200]" and uvData = "[240, 90]"
      and ob = "[0, 0, 0, 0]" and width = 2 and height = 2 and uv_flipped = False
      and y = 1 and x = 1 and y' = 0 and x' = 0
      and s' = "\<lparr>pY = 4, out = 4, outbuf = [4289855488, 4294947506, 4294836224, 4294936969]\<rparr>"]
  from t [THEN conjunct1, rule_format, OF run xy]
  have p: "[4289855488, 4294947506, 4294836224, 4294936969 :: uint32_t] ! 3 = pixel_of False 200 240 90"
    by (simp add: offset_of_def)
  from t [THEN conjunct2, THEN conjunct2, THEN conjunct2, THEN conjunct2, THEN conjunct1,
      rule_format, OF h]
  have "offset_of 2 0 0 = offset_of 2 1 1" .
  with run xy h p show ?thesis by simp
qed

text \<open>
  C8. The output word at \<open>(x, y)\<close> depends only on the luma byte at the pixel's index and
  on the two chroma bytes at \<open>offset\<close> and \<open>offset + 1\<close>: two successful conversions
  with the same dimensions and flag, of frames that agree on those three bytes, store
  the same word there, whatever the other bytes and the previous contents of the output
  buffers are.
\<close>

theorem output_depends_on_three_bytes:
  assumes "ConvertYUV420SPToARGB8888 yData uvData ob width height uv_flipped = Inr s1"
    and "ConvertYUV420SPToARGB8888 yData' uvData' ob' width height uv_flipped = Inr s2"
    and "0 \<le>s y" "y <s height" "0 \<le>s x" "x <s width"
    and "yData ! (nat (sint y) * nat (sint width) + nat (sint x))
       = yData' ! (nat (sint y) * nat (sint width) + nat (sint x))"
    and "uvData ! nat (sint (offset_of width y x)) = uvData' ! nat (sint (offset_of width y x))"
    and "uvData ! nat (sint (offset_of width y x + 1))
       = uvData' ! nat (sint (offset_of width y x + 1))"
  shows "outbuf s1 ! (nat (sint y) * nat (sint width) + nat (sint x))
       = outbuf s2 ! (nat (sint y) * nat (sint width) + nat (sint x))"
proof -
  define i where "i = nat (sint y) * nat (sint width) + nat (sint x)"
  have "outbuf s1 ! i = pixel_at uv_flipped yData uvData width y x i"
    unfolding i_def using assms(1,3-6) by (rule Convert_Inr(6))
  moreover have "outbuf s2 ! i = pixel_at uv_flipped yData' uvData' width y x i"
    unfolding i_def using assms(2,3-6) by (rule Convert_Inr(6))
  moreover have "pixel_at uv_flipped yData uvData width y x i
      = pixel_at uv_flipped yData' uvData' width y x i"
    using assms(7-9) by (simp add: pixel_at_def i_def)
  ultimately show ?thesis by (simp add: i_def)
qed

theorem output_depends_on_three_bytes_witness:
  "ConvertYUV420SPToARGB8888 [16, 235, 81, 200] [240, 90, 1, 2] [0, 0, 0, 0] 2 2 False
     = Inr \<lparr>pY = 4, out = 4, outbuf = [4289855488, 4294947506, 4294836224, 4294936969]\<rparr> \<and>
   ConvertYUV420SPToARGB8888 [7, 9, 11, 200] [240, 90] [5, 5, 5, 5, 5] 2 2 False
     = Inr \<lparr>pY = 4, out = 4, outbuf = [4289855488, 4289855488, 4289855488, 4294936969, 5]\<rparr> \<and>
   [4289855488, 4294947506, 4294836224, 4294936969 :: uint32_t] ! 3
     = [4289855488, 4289855488, 4289855488, 4294936969, 5] ! 3"
proof -
  have r1: "ConvertYUV420SPToARGB8888 [16, 235, 81, 200] [240, 90, 1, 2] [0, 0, 0, 0] 2 2 False
     = Inr \<lparr>pY = 4, out = 4, outbuf = [4289855488, 4294947506, 4294836224, 4294936969]\<rparr>"
    by code_simp
  have r2: "ConvertYUV420SPToARGB8888 [7, 9, 11, 200] [240, 90] [5, 5, 5, 5, 5] 2 2 False
     = Inr \<lparr>pY = 4, out = 4, outbuf = [4289855488, 4289855488, 4289855488, 4294936969, 5]\<rparr>"
    by code_simp
  have xy: "(0 :: c_int) \<le>s 1" "(1 :: c_int) <s 2" by (simp_all add: word_sle_eq word_sless_alt)
  have e: "[16, 235, 81, 200 :: uint8_t] ! (nat (sint (1 :: c_int)) * nat (sint (2 :: c_int)) + nat (sint (1 :: c_int)))
       = [7, 9, 11, 200] ! (nat (sint (1 :: c_int)) * nat (sint (2 :: c_int)) + nat (sint (1 :: c_int)))"
    "[240, 90, 1, 2 :: uint8_t] ! nat (sint (offset_of 2 1 1)) = [240, 90] ! nat (sint (offset_of 2 1 1))"
    "[240, 90, 1, 2 :: uint8_t] ! nat (sint (offset_of 2 1 1 + 1))
       = [240, 90] ! nat (sint (offset_of 2 1 1 + 1))"
    by (simp_all add: offset_of_def)
  note c = output_depends_on_three_bytes [OF r1 r2 xy xy e]
  show ?thesis using r1 r2 c by simp
qed

section \<open>Remarks\<close>

text \<open>
  Flipping is swapping only when the width is even: with width 3 the chroma pairs of the
  rows \<open>y = 2\<close> and \<open>y = 3\<close> start at the odd offset 3 and straddle two pair positions of
  the plane.
\<close>

lemma odd_width_flip_differs:
  "ConvertYUV420SPToARGB8888 (replicate 12 100) [10, 60, 110, 160, 210, 250, 30, 90]
     (replicate 12 0) 3 4 True
   \<noteq> ConvertYUV420SPToARGB8888 (replicate 12 100)
     (swap_uv [10, 60, 110, 160, 210, 250, 30, 90]) (replicate 12 0) 3 4 False"
  by code_simp

text \<open>
  The round trip through \<^verbatim>\<open>ConvertARGB8888ToYUV420SP\<close> is not stated here: that routine
  is defined in \<^verbatim>\<open>rgb2yuv.cc\<close>, which this development does not model. What the decoder
  alone decides: every word it stores is a value of the colour math on three bytes, and
  the colour math does not reach every opaque colour. The opaque colour with red 0,
  green 0 and blue 1 is never produced, so no encoder makes the round trip exact on a
  uniform block of that colour.
\<close>

lemma recipe_channels:
  "take_bit 8 (drop_bit 16 (recipe_ARGB Y U V))
     = take_bit 8 (drop_bit 10 (clamp_channel (1192 * max (Y - 16) 0 + 1634 * (V - 128))))"
  "take_bit 8 (drop_bit 8 (recipe_ARGB Y U V))
     = take_bit 8 (drop_bit 10 (clamp_channel
         (1192 * max (Y - 16) 0 - 833 * (V - 128) - 400 * (U - 128))))"
  "take_bit 8 (recipe_ARGB Y U V)
     = take_bit 8 (drop_bit 10 (clamp_channel (1192 * max (Y - 16) 0 + 2066 * (U - 128))))"
proof -
  have m: "(0xff :: int) = mask 8" "(0xFF000000 :: int) = push_bit 24 (mask 8)"
    by (simp_all add: mask_eq_exp_minus_1)
  show "take_bit 8 (drop_bit 16 (recipe_ARGB Y U V))
     = take_bit 8 (drop_bit 10 (clamp_channel (1192 * max (Y - 16) 0 + 1634 * (V - 128))))"
    unfolding recipe_ARGB_def Let_def m
    by (rule bit_eqI) (auto simp add: bit_simps)
  show "take_bit 8 (drop_bit 8 (recipe_ARGB Y U V))
     = take_bit 8 (drop_bit 10 (clamp_channel
         (1192 * max (Y - 16) 0 - 833 * (V - 128) - 400 * (U - 128))))"
    unfolding recipe_ARGB_def Let_def m
    by (rule bit_eqI) (auto simp add: bit_simps)
  show "take_bit 8 (recipe_ARGB Y U V)
     = take_bit 8 (drop_bit 10 (clamp_channel (1192 * max (Y - 16) 0 + 2066 * (U - 128))))"
    unfolding recipe_ARGB_def Let_def m
    by (rule bit_eqI) (auto simp add: bit_simps)
qed

lemma channel_byte: "take_bit 8 (drop_bit 10 (clamp_channel n)) = clamp_channel n div 1024"
proof -
  have "0 \<le> clamp_channel n div 1024" "clamp_channel n div 1024 < 256"
    by (simp_all add: clamp_channel_def)
  then show ?thesis by (simp add: drop_bit_eq_div take_bit_int_eq_self)
qed

lemma recipe_never_blue_1: "recipe_ARGB Y U V \<noteq> 0xFF000001"
proof
  assume e: "recipe_ARGB Y U V = 0xFF000001"
  define Y' where "Y' = max (Y - 16) 0"
  define U' where "U' = U - 128"
  define V' where "V' = V - 128"
  have Y0: "0 \<le> Y'" by (simp add: Y'_def)
  have r: "clamp_channel (1192 * Y' + 1634 * V') div 1024 = 0"
    and g: "clamp_channel (1192 * Y' - 833 * V' - 400 * U') div 1024 = 0"
    and b: "clamp_channel (1192 * Y' + 2066 * U') div 1024 = 1"
    using recipe_channels [of Y U V] unfolding e channel_byte Y'_def U'_def V'_def
    by simp_all
  from r have R: "1192 * Y' + 1634 * V' \<le> 1023"
    unfolding clamp_channel_def by (simp split: split_min split_max)
  from g have G: "1192 * Y' - 833 * V' - 400 * U' \<le> 1023"
    unfolding clamp_channel_def by (simp split: split_min split_max)
  from b have B: "1024 \<le> 1192 * Y' + 2066 * U'" "1192 * Y' + 2066 * U' \<le> 2047"
    unfolding clamp_channel_def by (simp_all split: split_min split_max)
  show False
  proof (cases "U' \<le> 0")
    case True
    with B(1) have "1 \<le> Y'" by arith
    moreover from R G True have "Y' \<le> 0" by arith
    ultimately show False by simp
  next
    case False
    with B(2) Y0 show False by arith
  qed
qed

lemma no_frame_decodes_to_blue_1:
  fixes bY b0 b1 :: uint8_t
  shows "pixel_of uv_flipped bY b0 b1 \<noteq> 0xFF000001"
proof -
  have "YUV2RGB (ucast y) (ucast u) (ucast v) \<noteq> 0xFF000001" for y u v :: uint8_t
  proof
    assume "YUV2RGB (ucast y) (ucast u) (ucast v) = 0xFF000001"
    then have "uint (YUV2RGB (ucast y) (ucast u) (ucast v)) = 0xFF000001" by simp
    then show False by (simp add: YUV2RGB_bytes recipe_never_blue_1)
  qed
  then show ?thesis by (simp add: pixel_of_def Let_def)
qed

lemma decoded_never_blue_1:
  assumes "ConvertYUV420SPToARGB8888 yData uvData ob width height uv_flipped = Inr s'"
    and "i < out s'"
  shows "outbuf s' ! i \<noteq> 0xFF000001"
proof -
  from assms have "i < nat (sint height) * nat (sint width)"
    using Convert_Inr(2) [OF assms(1)] by simp
  then obtain y x where xy: "0 \<le>s y" "y <s height" "0 \<le>s x" "x <s width"
    and e: "i = nat (sint y) * nat (sint width) + nat (sint x)"
    using pixel_index_ex by blast
  have "outbuf s' ! i = pixel_at uv_flipped yData uvData width y x i"
    unfolding e using assms(1) xy by (rule Convert_Inr(6))
  then show ?thesis by (simp add: pixel_at_def no_frame_decodes_to_blue_1)
qed

end
